theory Spec2Isabelle
  imports Complex_Main
begin

section \<open>Python values used by the client\<close>

text \<open>
  A Python \<open>str\<close> is modelled as a \<open>string\<close>: one list element per character of the
  Python string, so \<open>length\<close> is Python's \<open>len\<close>. The type \<open>char\<close> has 256 values, so the
  model covers the strings whose characters are below 256. Python integers are unbounded
  and are modelled as \<open>int\<close>. An exception raised by a function is the \<open>Inl\<close> branch of
  its result.
\<close>

datatype pyerror =
    ValueError string
  | OSError string
  | HTTPError int
  | RequestException string
  | JSONDecodeError
  | AttributeError
  | KeyError
  | TypeError
  | IndexError

text \<open>
  The slice \<open>s[i:j]\<close> of Python with step 1: a negative bound counts from the end, both
  bounds are clamped to \<open>0 .. len(s)\<close>, and an empty range gives the empty string.
\<close>

definition py_slice :: "'a list \<Rightarrow> int \<Rightarrow> int \<Rightarrow> 'a list" where
  "py_slice s i j =
     (let n = int (length s);
          lo = (if i < 0 then max (i + n) 0 else min i n);
          hi = (if j < 0 then max (j + n) 0 else min j n)
      in if lo < hi then take (nat (hi - lo)) (drop (nat lo) s) else [])"

section \<open>The environment: files and standard output\<close>

record world =
  files :: "string \<Rightarrow> pyerror + string"
  write_error :: "string \<rightharpoonup> string"
  open_log :: "string list"
  written :: "(string \<times> string) list"
  stdout :: "string list"

text \<open>
  \<open>files w p\<close> is \<open>Inr\<close> of the text that \<open>open(p, encoding="utf-8").read()\<close> returns, or
  \<open>Inl\<close> of the exception that the call raises. \<open>write_error w p\<close> is the message of the
  exception that \<open>open(p, 'w')\<close> raises, \<open>None\<close> when the file can be written. \<open>open_log\<close> lists the
  paths passed to \<open>open\<close>, oldest first, \<open>written\<close> the pairs of a path and the text written
  to it, and \<open>stdout\<close> the lines printed.
\<close>

definition open_read :: "world \<Rightarrow> string \<Rightarrow> (pyerror + string) \<times> world" where
  "open_read w file_path =
     (let w' = w\<lparr>open_log := open_log w @ [file_path]\<rparr>
      in (files w file_path, w'))"

section \<open>\<open>chunk_text\<close>\<close>

text \<open>
  The \<open>while\<close> loop of \<open>chunk_text\<close>, with its variables \<open>start\<close> and \<open>chunks\<close> as
  arguments. It does not return when \<open>chunk_size - overlap_size \<le> 0\<close> and
  \<open>start < len(text)\<close>; \<open>None\<close> is that outcome.
\<close>

partial_function (option) chunk_loop ::
  "string \<Rightarrow> int \<Rightarrow> int \<Rightarrow> int \<Rightarrow> string list \<Rightarrow> string list option" where
  "chunk_loop text chunk_size overlap_size start chunks =
     (if start < int (length text)
      then (let end_pos = start + chunk_size
            in chunk_loop text chunk_size overlap_size (end_pos - overlap_size)
                 (chunks @ [py_slice text start end_pos]))
      else Some chunks)"

declare chunk_loop.simps [code]

text \<open>
  \<open>chunk_text\<close> checks the sizes first, then opens and reads the file, then runs the loop
  from \<open>start = 0\<close> with no chunks. The result is \<open>None\<close> when the call does not return.
\<close>

definition chunk_text ::
  "world \<Rightarrow> string \<Rightarrow> int \<Rightarrow> int \<Rightarrow> ((pyerror + string list) \<times> world) option" where
  "chunk_text w file_path chunk_size overlap_size =
     (if overlap_size \<ge> chunk_size
      then Some (Inl (ValueError ''Overlap must be less than chunk size''), w)
      else (case open_read w file_path of
              (Inl e, w') \<Rightarrow> Some (Inl e, w')
            | (Inr text, w') \<Rightarrow>
                map_option (\<lambda>chunks. (Inr chunks, w'))
                  (chunk_loop text chunk_size overlap_size 0 [])))"

text \<open>
  The slice taken by iteration \<open>k\<close> of the loop (counting from 0) when it is entered with
  cursor \<open>start\<close>: the cursor of that iteration is \<open>start + k * (chunk_size - overlap_size)\<close>.
\<close>

definition window :: "string \<Rightarrow> int \<Rightarrow> int \<Rightarrow> int \<Rightarrow> nat \<Rightarrow> string" where
  "window text chunk_size overlap_size start k =
     py_slice text (start + int k * (chunk_size - overlap_size))
       (start + int k * (chunk_size - overlap_size) + chunk_size)"

text \<open>
  Example environments: \<open>w_other\<close> differs from \<open>w_demo\<close> only in the content of
  \<open>transcript.txt\<close>, and \<open>w_nofile\<close> has no readable file.
\<close>

definition w_demo :: world where
  "w_demo = \<lparr>files = (\<lambda>p. if p = ''transcript.txt'' then Inr ''abcdef''
                           else if p = ''notes.txt'' then Inr ''hello world''
                           else Inl (OSError ''No such file or directory'')),
             write_error = [''/missing/out.txt'' \<mapsto> ''No such file or directory''],
             open_log = [], written = [], stdout = []\<rparr>"

definition w_other :: world where
  "w_other = w_demo\<lparr>files := (files w_demo)(''transcript.txt'' := Inr ''uvwxyz'')\<rparr>"

definition w_nofile :: world where
  "w_nofile = w_demo\<lparr>files := (\<lambda>p. Inl (OSError ''No such file or directory''))\<rparr>"

section \<open>\<open>extract_video_id\<close>\<close>

text \<open>
  The pattern of \<open>extract_video_id\<close> is \<open>(?:m\<^sub>1|\<dots>|m\<^sub>1\<^sub>6)([^#\&\?\n\/]+)\<close>: a non-capturing
  alternation of sixteen markers followed by one capturing group. Every marker is a
  sequence of atoms: a literal character, or the unescaped dot of \<open>youtu.be\<close> and
  \<open>youtube.com\<close>, which matches any character except a newline.
\<close>

datatype re_atom = Lit char | Dot

fun atom_matches :: "re_atom \<Rightarrow> char \<Rightarrow> bool" where
  "atom_matches (Lit a) c = (c = a)"
| "atom_matches Dot c = (c \<noteq> CHR 0x0A)"

text \<open>Matching a sequence of atoms at the front of a string returns the rest of the string.\<close>

fun match_seq :: "re_atom list \<Rightarrow> string \<Rightarrow> string option" where
  "match_seq [] s = Some s"
| "match_seq (a # as) [] = None"
| "match_seq (a # as) (c # cs) = (if atom_matches a c then match_seq as cs else None)"

definition lit :: "string \<Rightarrow> re_atom list" where
  "lit s = map Lit s"

text \<open>The alternatives, in the order of the pattern.\<close>

definition markers :: "re_atom list list" where
  "markers =
     [lit ''v='',
      lit ''/videos/'',
      lit ''youtu'' @ [Dot] @ lit ''be/'',
      lit ''/v/'',
      lit ''/e/'',
      lit ''/watch?v='',
      lit ''&v='',
      lit ''/embed/'',
      lit ''%2Fvideos%2F'',
      lit ''embed%2F'',
      lit ''youtu'' @ [Dot] @ lit ''be%2F'',
      lit ''%2Fv%2F'',
      lit ''%2Fe%2F'',
      lit ''youtube'' @ [Dot] @ lit ''com/embed/'',
      lit ''youtube'' @ [Dot] @ lit ''com/v/'',
      lit ''youtube'' @ [Dot] @ lit ''com/watch?v='']"

text \<open>The character class \<open>[^#\&\?\n\/]\<close> of the capturing group.\<close>

definition id_char :: "char \<Rightarrow> bool" where
  "id_char c = (c \<noteq> CHR ''#'' \<and> c \<noteq> CHR ''&'' \<and> c \<noteq> CHR ''?'' \<and> c \<noteq> CHR 0x0A \<and> c \<noteq> CHR ''/'')"

text \<open>
  One alternative at one position: the marker must match and the group, which is greedy
  and is the end of the pattern, takes the longest run of class characters, at least one.
\<close>

definition marker_hit :: "re_atom list \<Rightarrow> string \<Rightarrow> string option" where
  "marker_hit m s =
     (case match_seq m s of
        None \<Rightarrow> None
      | Some rest \<Rightarrow> if takeWhile id_char rest = [] then None else Some (takeWhile id_char rest))"

text \<open>
  The alternation at one position: the regular expression engine tries the alternatives
  from left to right and backtracks into the next one when the group fails.
\<close>

fun try_alts :: "re_atom list list \<Rightarrow> string \<Rightarrow> string option" where
  "try_alts [] s = None"
| "try_alts (m # ms) s =
     (case marker_hit m s of Some g \<Rightarrow> Some g | None \<Rightarrow> try_alts ms s)"

text \<open>
  \<open>re.search\<close>: the pattern is tried at position 0, then 1, and so on up to the end of the
  string; the first position with a match gives the result, group 1 of the match.
\<close>

fun re_search :: "string \<Rightarrow> string option" where
  "re_search [] = try_alts markers []"
| "re_search (c # cs) =
     (case try_alts markers (c # cs) of Some g \<Rightarrow> Some g | None \<Rightarrow> re_search cs)"

definition extract_video_id :: "string \<Rightarrow> pyerror + string" where
  "extract_video_id youtube_url =
     (case re_search youtube_url of
        None \<Rightarrow> Inl (ValueError ''Could not extract video ID from URL.'')
      | Some g \<Rightarrow> Inr g)"

text \<open>
  The reading of the specification, for comparison: the markers are taken in the order of
  the precedence list, and the first marker that matches anywhere in the string wins.
\<close>

fun find_marker :: "re_atom list \<Rightarrow> string \<Rightarrow> string option" where
  "find_marker m [] = marker_hit m []"
| "find_marker m (c # cs) =
     (case marker_hit m (c # cs) of Some g \<Rightarrow> Some g | None \<Rightarrow> find_marker m cs)"

fun precedence_search :: "re_atom list list \<Rightarrow> string \<Rightarrow> string option" where
  "precedence_search [] s = None"
| "precedence_search (m # ms) s =
     (case find_marker m s of Some g \<Rightarrow> Some g | None \<Rightarrow> precedence_search ms s)"

text \<open>
  The recognized URL markers as texts, every character standing for itself: the sixteen
  alternatives of the pattern with the dot of \<open>youtu.be\<close> and \<open>youtube.com\<close> read as a dot.
  A string contains a recognized marker when one of these texts occurs in it.
\<close>

definition marker_texts :: "string list" where
  "marker_texts =
     [''v='', ''/videos/'', ''youtu.be/'', ''/v/'', ''/e/'', ''/watch?v='', ''&v='', ''/embed/'',
      ''%2Fvideos%2F'', ''embed%2F'', ''youtu.be%2F'', ''%2Fv%2F'', ''%2Fe%2F'',
      ''youtube.com/embed/'', ''youtube.com/v/'', ''youtube.com/watch?v='']"

fun occurs_in :: "string \<Rightarrow> string \<Rightarrow> bool" where
  "occurs_in m [] = (m = [])"
| "occurs_in m (c # cs) = (take (length m) (c # cs) = m \<or> occurs_in m cs)"

definition contains_marker :: "string \<Rightarrow> bool" where
  "contains_marker s = list_ex (\<lambda>m. occurs_in m s) marker_texts"

text \<open>
  Two atoms overlap when some character matches both; two markers are compatible when
  their atoms overlap pairwise as far as the shorter one goes.
\<close>

fun atoms_overlap :: "re_atom \<Rightarrow> re_atom \<Rightarrow> bool" where
  "atoms_overlap (Lit a) (Lit b) = (a = b)"
| "atoms_overlap (Lit a) Dot = (a \<noteq> CHR 0x0A)"
| "atoms_overlap Dot (Lit b) = (b \<noteq> CHR 0x0A)"
| "atoms_overlap Dot Dot = True"

fun compatible :: "re_atom list \<Rightarrow> re_atom list \<Rightarrow> bool" where
  "compatible (a # as) (b # bs) = (atoms_overlap a b \<and> compatible as bs)"
| "compatible _ _ = True"

section \<open>\<open>get_transcript\<close>\<close>

text \<open>
  One entry of \<open>to_raw_data()\<close>: the dictionary with the keys \<open>text\<close>, \<open>start\<close> and
  \<open>duration\<close>. The type of the two times is left open.
\<close>

record 't segment =
  seg_text :: string
  seg_start :: 't
  seg_duration :: 't

text \<open>
  \<open>str.isspace\<close> on one character, for the characters below 256: tab to carriage return,
  the four separators \<open>0x1C\<close> to \<open>0x1F\<close>, the space, \<open>0x85\<close> and \<open>0xA0\<close>. \<open>str.strip()\<close>
  removes these characters from both ends.
\<close>

definition py_isspace :: "char \<Rightarrow> bool" where
  "py_isspace c =
     (let n = (of_char c :: nat)
      in (9 \<le> n \<and> n \<le> 13) \<or> (28 \<le> n \<and> n \<le> 32) \<or> n = 133 \<or> n = 160)"

definition py_strip :: "string \<Rightarrow> string" where
  "py_strip s = rev (dropWhile py_isspace (rev (dropWhile py_isspace s)))"

text \<open>
  The transcript service is a parameter: \<open>fetch video_id languages\<close> is \<open>Inr\<close> of the raw
  data when \<open>YouTubeTranscriptApi().fetch(...).to_raw_data()\<close> returns, and \<open>Inl msg\<close> when
  it raises an exception \<open>e\<close> with \<open>str(e) = msg\<close>. Everything from the call of the service
  to the \<open>return\<close> is inside the \<open>try\<close>, so an exception of the service or of writing the
  output file ends in the handler, which prints and returns \<open>None\<close>. The test
  \<open>if output_file\<close> is false for \<open>None\<close> and for the empty string.
\<close>

definition get_transcript ::
  "(string \<Rightarrow> string list \<Rightarrow> string + 't segment list) \<Rightarrow> world \<Rightarrow>
     string \<Rightarrow> string option \<Rightarrow> string \<Rightarrow> string option \<times> world" where
  "get_transcript fetch w video_id output_file language =
     (case fetch video_id [language] of
        Inl msg \<Rightarrow> (None, w\<lparr>stdout := stdout w @ [''Error: '' @ msg]\<rparr>)
      | Inr transcript_data \<Rightarrow>
          (let transcript_text =
                 py_strip (foldl (\<lambda>acc entry. acc @ seg_text entry @ '' '') [] transcript_data)
           in case output_file of
                None \<Rightarrow> (Some transcript_text, w)
              | Some p \<Rightarrow>
                  if p = [] then (Some transcript_text, w)
                  else (let w' = w\<lparr>open_log := open_log w @ [p]\<rparr>
                        in case write_error w p of
                             Some msg \<Rightarrow> (None, w'\<lparr>stdout := stdout w' @ [''Error: '' @ msg]\<rparr>)
                           | None \<Rightarrow>
                               (Some transcript_text,
                                w'\<lparr>written := written w' @ [(p, transcript_text)]\<rparr>))))"

text \<open>
  The words of the specification, for comparison: the segment texts joined with a single
  space between neighbours, as \<open>" ".join\<close> does.
\<close>

fun py_join :: "string \<Rightarrow> string list \<Rightarrow> string" where
  "py_join sep [] = []"
| "py_join sep [x] = x"
| "py_join sep (x # y # ys) = x @ sep @ py_join sep (y # ys)"

text \<open>The writing of the output file fails when a file is asked for and cannot be opened.\<close>

definition write_fails :: "world \<Rightarrow> string option \<Rightarrow> bool" where
  "write_fails w output_file =
     (case output_file of None \<Rightarrow> False | Some p \<Rightarrow> p \<noteq> [] \<and> write_error w p \<noteq> None)"

text \<open>Example services: one that returns two segments, one that raises.\<close>

definition fetch_hello :: "string \<Rightarrow> string list \<Rightarrow> string + nat segment list" where
  "fetch_hello video_id languages =
     Inr [\<lparr>seg_text = ''Hello'', seg_start = 0, seg_duration = 2\<rparr>,
          \<lparr>seg_text = ''world'', seg_start = 2, seg_duration = 3\<rparr>]"

definition fetch_unavailable :: "string \<Rightarrow> string list \<Rightarrow> string + nat segment list" where
  "fetch_unavailable video_id languages = Inl ''Could not retrieve a transcript''"

section \<open>\<open>fetch_video_snippet\<close>\<close>

text \<open>
  The value that \<open>resp.json()\<close> returns. A JSON object is the list of the items of the
  Python dictionary, whose keys are distinct.
\<close>

datatype json =
    JNull
  | JBool bool
  | JNum rat
  | JStr string
  | JArr "json list"
  | JObj "(string \<times> json) list"

text \<open>The truth value of a Python value, as \<open>not\<close> and \<open>if\<close> compute it.\<close>

fun truthy :: "json \<Rightarrow> bool" where
  "truthy JNull = False"
| "truthy (JBool b) = b"
| "truthy (JNum n) = (n \<noteq> 0)"
| "truthy (JStr s) = (s \<noteq> [])"
| "truthy (JArr xs) = (xs \<noteq> [])"
| "truthy (JObj kvs) = (kvs \<noteq> [])"

text \<open>\<open>data.get(key)\<close>: only a dictionary has the method; a missing key gives \<open>None\<close>.\<close>

fun dict_get :: "json \<Rightarrow> string \<Rightarrow> pyerror + json" where
  "dict_get (JObj kvs) key = Inr (case map_of kvs key of None \<Rightarrow> JNull | Some v \<Rightarrow> v)"
| "dict_get _ key = Inl AttributeError"

text \<open>\<open>v[key]\<close> with a string key.\<close>

fun subscript_key :: "json \<Rightarrow> string \<Rightarrow> pyerror + json" where
  "subscript_key (JObj kvs) key =
     (case map_of kvs key of None \<Rightarrow> Inl KeyError | Some v \<Rightarrow> Inr v)"
| "subscript_key _ key = Inl TypeError"

text \<open>
  The position that an integer index denotes in a sequence of \<open>len\<close> elements: an index
  below zero counts from the end, and an index outside the sequence denotes no position.
\<close>

definition position :: "nat \<Rightarrow> int \<Rightarrow> nat option" where
  "position len i =
     (if 0 \<le> i \<and> i < int len then Some (nat i)
      else if i < 0 \<and> - int len \<le> i then Some (nat (int len + i))
      else None)"

text \<open>
  \<open>v[i]\<close> with an integer index: a list or a string is indexed; a dictionary from JSON has
  no integer key; nothing else can be indexed.
\<close>

fun subscript_int :: "json \<Rightarrow> int \<Rightarrow> pyerror + json" where
  "subscript_int (JArr xs) i =
     (case position (length xs) i of None \<Rightarrow> Inl IndexError | Some k \<Rightarrow> Inr (xs ! k))"
| "subscript_int (JStr s) i =
     (case position (length s) i of None \<Rightarrow> Inl IndexError | Some k \<Rightarrow> Inr (JStr [s ! k]))"
| "subscript_int (JObj kvs) i = Inl KeyError"
| "subscript_int _ i = Inl TypeError"

text \<open>
  The response of \<open>requests.get\<close>: its status code and the value of \<open>resp.json()\<close>, \<open>None\<close>
  when the body is not JSON and \<open>resp.json()\<close> raises.
\<close>

record response =
  status_code :: int
  json_body :: "json option"

text \<open>
  \<open>Response.raise_for_status()\<close> of the requests library raises \<open>HTTPError\<close> for a status
  code from 400 to 599 and returns for every other status code.
\<close>

definition raise_for_status :: "response \<Rightarrow> pyerror + unit" where
  "raise_for_status resp =
     (if 400 \<le> status_code resp \<and> status_code resp < 600
      then Inl (HTTPError (status_code resp))
      else Inr ())"

definition BASE_VIDEO_API :: string where
  "BASE_VIDEO_API = ''https://www.googleapis.com/youtube/v3/videos''"

text \<open>
  \<open>urlencode\<close> and \<open>requests.get\<close> are parameters: \<open>http_get url\<close> is \<open>Inr\<close> of the response,
  or \<open>Inl\<close> of the exception that the call raises. \<open>api_key\<close> is the field of the client.
\<close>

definition fetch_video_snippet ::
  "((string \<times> string) list \<Rightarrow> string) \<Rightarrow> (string \<Rightarrow> pyerror + response) \<Rightarrow>
     string \<Rightarrow> string \<Rightarrow> pyerror + json" where
  "fetch_video_snippet urlencode http_get api_key video_id =
     (let params = urlencode [(''part'', ''snippet''), (''id'', video_id), (''key'', api_key)];
          url = BASE_VIDEO_API @ ''?'' @ params
      in case http_get url of
           Inl e \<Rightarrow> Inl e
         | Inr resp \<Rightarrow>
             (case raise_for_status resp of
                Inl e \<Rightarrow> Inl e
              | Inr _ \<Rightarrow>
                  (case json_body resp of
                     None \<Rightarrow> Inl JSONDecodeError
                   | Some data \<Rightarrow>
                       (case dict_get data ''items'' of
                          Inl e \<Rightarrow> Inl e
                        | Inr items \<Rightarrow>
                            if \<not> truthy items
                            then Inl (ValueError ''Video snippet not found.'')
                            else (case subscript_key data ''items'' of
                                    Inl e \<Rightarrow> Inl e
                                  | Inr items' \<Rightarrow>
                                      (case subscript_int items' 0 of
                                         Inl e \<Rightarrow> Inl e
                                       | Inr item \<Rightarrow> subscript_key item ''snippet''))))))"

text \<open>
  Example parameters: an encoder that joins \<open>key=value\<close> pairs with \<open>&\<close>, and servers that
  answer every request with one fixed response.
\<close>

definition plain_urlencode :: "(string \<times> string) list \<Rightarrow> string" where
  "plain_urlencode kvs = py_join ''&'' (map (\<lambda>(k, v). k @ ''='' @ v) kvs)"

definition snippet_abc :: json where
  "snippet_abc = JObj [(''title'', JStr ''A talk''), (''thumbnails'', JObj [])]"

definition body_found :: json where
  "body_found = JObj [(''kind'', JStr ''youtube#videoListResponse''),
                      (''items'', JArr [JObj [(''id'', JStr ''abc123''), (''snippet'', snippet_abc)]])]"

definition body_empty :: json where
  "body_empty = JObj [(''kind'', JStr ''youtube#videoListResponse''), (''items'', JArr [])]"

definition server :: "int \<Rightarrow> json option \<Rightarrow> string \<Rightarrow> pyerror + response" where
  "server status body url = Inr \<lparr>status_code = status, json_body = body\<rparr>"

section \<open>Properties of \<open>chunk_text\<close>\<close>

subsection \<open>The loop in closed form\<close>

text \<open>
  When \<open>overlap_size < chunk_size\<close> the loop returns: it appends the slices of
  iterations \<open>0, \<dots>, n - 1\<close>, where \<open>n\<close> is the first \<open>k\<close> whose cursor is at or past the
  end of the text.
\<close>

lemma chunk_loop_closed:
  assumes step: "overlap_size < chunk_size"
  shows "\<exists>n. chunk_loop text chunk_size overlap_size start chunks =
            Some (chunks @ map (window text chunk_size overlap_size start) [0..<n])
          \<and> int (length text) \<le> start + int n * (chunk_size - overlap_size)
          \<and> (0 < n \<longrightarrow> start + (int n - 1) * (chunk_size - overlap_size) < int (length text))"
proof (induction "nat (int (length text) - start)" arbitrary: start chunks rule: less_induct)
  case less
  let ?S = "chunk_size - overlap_size"
  show ?case
  proof (cases "start < int (length text)")
    case False
    then have "chunk_loop text chunk_size overlap_size start chunks = Some chunks"
      by (subst chunk_loop.simps) simp
    with False show ?thesis by (intro exI[of _ 0]) simp
  next
    case True
    let ?start' = "start + chunk_size - overlap_size"
    let ?chunks' = "chunks @ [py_slice text start (start + chunk_size)]"
    have dec: "nat (int (length text) - ?start') < nat (int (length text) - start)"
      using True step by linarith
    from less[OF dec] obtain n where
      n1: "chunk_loop text chunk_size overlap_size ?start' ?chunks' =
             Some (?chunks' @ map (window text chunk_size overlap_size ?start') [0..<n])"
      and n2: "int (length text) \<le> ?start' + int n * ?S"
      and n3: "0 < n \<longrightarrow> ?start' + (int n - 1) * ?S < int (length text)"
      by blast
    have unfold: "chunk_loop text chunk_size overlap_size start chunks =
             chunk_loop text chunk_size overlap_size ?start' ?chunks'"
      using True by (subst chunk_loop.simps) (simp add: Let_def)
    have w0: "py_slice text start (start + chunk_size) = window text chunk_size overlap_size start 0"
      by (simp add: window_def)
    have wS: "window text chunk_size overlap_size ?start' k = window text chunk_size overlap_size start (Suc k)" for k
      by (simp add: window_def algebra_simps)
    have "map (window text chunk_size overlap_size start) [0..<Suc n] =
            window text chunk_size overlap_size start 0 #
            map (window text chunk_size overlap_size ?start') [0..<n]"
      by (simp only: upt_conv_Cons[of 0 "Suc n"] map_Suc_upt[symmetric] list.map wS) (simp add: comp_def wS)
    then have eq: "chunk_loop text chunk_size overlap_size start chunks =
            Some (chunks @ map (window text chunk_size overlap_size start) [0..<Suc n])"
      using unfold n1 w0 by simp
    have b1: "int (length text) \<le> start + int (Suc n) * ?S"
      using n2 by (simp add: algebra_simps)
    have b2: "start + (int (Suc n) - 1) * ?S < int (length text)"
    proof (cases "n = 0")
      case True with \<open>start < int (length text)\<close> show ?thesis by simp
    next
      case False with n3 show ?thesis by (simp add: algebra_simps)
    qed
    from eq b1 b2 show ?thesis by (intro exI[of _ "Suc n"]) simp
  qed
qed

lemma py_slice_nonneg:
  assumes "0 \<le> a" "a \<le> b"
  shows "py_slice s a b = take (nat (b - a)) (drop (nat a) s)"
proof (cases "a < int (length s)")
  case True
  then have "min a (int (length s)) = a" by simp
  moreover have "nat (min b (int (length s)) - a) = min (nat (b - a)) (length s - nat a)"
    using assms True by linarith
  ultimately show ?thesis using assms True
    by (auto simp: py_slice_def Let_def min_def)
next
  case False
  then show ?thesis using assms by (simp add: py_slice_def Let_def)
qed

lemma window_nat:
  assumes "0 < C" "0 \<le> ov" "ov < C"
  shows "window text C ov 0 k = take (nat C) (drop (k * nat (C - ov)) text)"
proof -
  have "nat (int k * (C - ov)) = k * nat (C - ov)"
    using assms by (simp add: nat_mult_distrib)
  moreover have "0 \<le> int k * (C - ov)" using assms by simp
  ultimately show ?thesis using assms
    by (simp add: window_def py_slice_nonneg)
qed


lemma chunk_text_result:
  assumes "files w file_path = Inr text" "overlap_size < chunk_size"
  shows "\<exists>n. chunk_text w file_path chunk_size overlap_size =
            Some (Inr (map (window text chunk_size overlap_size 0) [0..<n]),
                  w\<lparr>open_log := open_log w @ [file_path]\<rparr>)
          \<and> int (length text) \<le> int n * (chunk_size - overlap_size)
          \<and> (0 < n \<longrightarrow> (int n - 1) * (chunk_size - overlap_size) < int (length text))"
proof -
  from chunk_loop_closed[OF assms(2), of "text" 0 "[]"] obtain n where
    "chunk_loop text chunk_size overlap_size 0 [] =
       Some (map (window text chunk_size overlap_size 0) [0..<n])"
    "int (length text) \<le> int n * (chunk_size - overlap_size)"
    "0 < n \<longrightarrow> (int n - 1) * (chunk_size - overlap_size) < int (length text)"
    by auto
  with assms show ?thesis
    by (intro exI[of _ n]) (simp add: chunk_text_def open_read_def Let_def)
qed

lemma chunk_text_windows:
  assumes "files w file_path = Inr text" "0 < C" "0 \<le> ov" "ov < C"
  shows "\<exists>n. chunk_text w file_path C ov =
            Some (Inr (map (\<lambda>k. take (nat C) (drop (k * nat (C - ov)) text)) [0..<n]),
                  w\<lparr>open_log := open_log w @ [file_path]\<rparr>)
          \<and> length text \<le> n * nat (C - ov)
          \<and> (0 < n \<longrightarrow> (n - 1) * nat (C - ov) < length text)"
proof -
  from chunk_text_result[OF assms(1,4)] obtain n where
    r: "chunk_text w file_path C ov =
            Some (Inr (map (window text C ov 0) [0..<n]),
                  w\<lparr>open_log := open_log w @ [file_path]\<rparr>)"
    and b1: "int (length text) \<le> int n * (C - ov)"
    and b2: "0 < n \<longrightarrow> (int n - 1) * (C - ov) < int (length text)"
    by blast
  have S: "C - ov = int (nat (C - ov))" using assms by simp
  have c1: "length text \<le> n * nat (C - ov)"
  proof -
    from b1 S have "int (length text) \<le> int (n * nat (C - ov))" by (metis of_nat_mult)
    then show ?thesis by linarith
  qed
  have c2: "(n - 1) * nat (C - ov) < length text" if "0 < n"
  proof -
    from that have "int n - 1 = int (n - 1)" by simp
    with b2 that S have "int ((n - 1) * nat (C - ov)) < int (length text)" by (metis of_nat_mult)
    then show ?thesis by linarith
  qed
  have "map (window text C ov 0) [0..<n] =
        map (\<lambda>k. take (nat C) (drop (k * nat (C - ov)) text)) [0..<n]"
    using window_nat[OF assms(2,3,4)] by simp
  with r c1 c2 show ?thesis by (intro exI[of _ n]) simp
qed

text \<open>
  Claim C1. Let the file at \<open>file_path\<close> hold the text \<open>T\<close>, and let \<open>0 < C\<close> and
  \<open>0 \<le> ov < C\<close>. Then \<open>chunk_text\<close> returns a list of chunks in which chunk \<open>k\<close> is the
  substring of \<open>T\<close> that starts at position \<open>k * (C - ov)\<close> and has at most \<open>C\<close>
  characters: the chunks are in ascending order of start position, consecutive start
  positions differ by exactly \<open>C - ov\<close>, and every start position lies inside \<open>T\<close>.
  Every position of \<open>T\<close> lies inside some chunk, and the empty text gives no chunk at all.
\<close>

theorem chunk_text_cover:
  assumes "files w file_path = Inr T" "0 < C" "0 \<le> ov" "ov < C"
  shows "\<exists>chunks w'. chunk_text w file_path C ov = Some (Inr chunks, w')
     \<and> (\<forall>k < length chunks. chunks ! k = take (nat C) (drop (k * nat (C - ov)) T))
     \<and> (\<forall>k < length chunks. k * nat (C - ov) < length T)
     \<and> (\<forall>k < length chunks. length (chunks ! k) \<le> nat C)
     \<and> (\<forall>i < length T. \<exists>k < length chunks.
            k * nat (C - ov) \<le> i \<and> i < k * nat (C - ov) + length (chunks ! k))
     \<and> (T = [] \<longrightarrow> chunks = [])"
proof -
  let ?s = "nat (C - ov)"
  let ?f = "\<lambda>k. take (nat C) (drop (k * ?s) T)"
  from chunk_text_windows[OF assms] obtain n where
    r: "chunk_text w file_path C ov =
          Some (Inr (map ?f [0..<n]), w\<lparr>open_log := open_log w @ [file_path]\<rparr>)"
    and b1: "length T \<le> n * ?s"
    and b2: "0 < n \<longrightarrow> (n - 1) * ?s < length T"
    by blast
  have spos: "0 < ?s" and sle: "?s \<le> nat C" using assms by simp_all
  have p1: "\<forall>k < length (map ?f [0..<n]). map ?f [0..<n] ! k = ?f k" by simp
  have p2: "\<forall>k < length (map ?f [0..<n]). k * ?s < length T"
  proof (intro allI impI)
    fix k assume "k < length (map ?f [0..<n])"
    then have kn: "k \<le> n - 1" and npos: "0 < n" by simp_all
    from kn have "k * ?s \<le> (n - 1) * ?s" by (rule mult_le_mono1)
    moreover from b2 npos have "(n - 1) * ?s < length T" by simp
    ultimately show "k * ?s < length T" by (rule le_less_trans)
  qed
  have p3: "\<forall>k < length (map ?f [0..<n]). length (map ?f [0..<n] ! k) \<le> nat C" by simp
  have p4: "\<forall>i < length T. \<exists>k < length (map ?f [0..<n]).
              k * ?s \<le> i \<and> i < k * ?s + length (map ?f [0..<n] ! k)"
  proof (intro allI impI)
    fix i assume i: "i < length T"
    let ?k = "i div ?s"
    have lo: "?k * ?s \<le> i" by simp
    have hi: "i < ?k * ?s + ?s" using spos
      by (metis add.commute div_mult_mod_eq mod_less_divisor nat_add_left_cancel_less)
    have "i < n * ?s" using i b1 by simp
    then have kn: "?k < n" using spos by (simp add: less_mult_imp_div_less)
    have len: "length (?f ?k) = min (nat C) (length T - ?k * ?s)" by (simp add: min.commute)
    have "i < ?k * ?s + length (?f ?k)" unfolding len using hi sle i lo by linarith
    with lo kn show "\<exists>k < length (map ?f [0..<n]).
              k * ?s \<le> i \<and> i < k * ?s + length (map ?f [0..<n] ! k)"
      by (intro exI[of _ ?k]) simp
  qed
  have p5: "T = [] \<longrightarrow> map ?f [0..<n] = []" using b2 by (cases n) auto
  from r p1 p2 p3 p4 p5 show ?thesis by blast
qed

text \<open>
  Claim C10. For a non-empty text \<open>T\<close>, \<open>0 < C\<close> and \<open>0 \<le> ov < C\<close>: there is at least one
  chunk, the first chunk is the prefix of \<open>T\<close> of at most \<open>C\<close> characters (it starts at
  position 0), the last chunk is the suffix of \<open>T\<close> from its start position (it ends at the
  end of \<open>T\<close>), and the first chunk followed by every later chunk without its first \<open>ov\<close>
  characters is \<open>T\<close>.
\<close>

theorem chunk_text_rebuild:
  assumes "files w file_path = Inr T" "0 < C" "0 \<le> ov" "ov < C" "T \<noteq> []"
  shows "\<exists>chunks w'. chunk_text w file_path C ov = Some (Inr chunks, w')
     \<and> chunks \<noteq> []
     \<and> hd chunks = take (nat C) T
     \<and> last chunks = drop ((length chunks - 1) * nat (C - ov)) T
     \<and> hd chunks @ concat (map (drop (nat ov)) (tl chunks)) = T"
proof -
  let ?s = "nat (C - ov)"
  let ?c = "nat C"
  let ?o = "nat ov"
  let ?f = "\<lambda>k. take ?c (drop (k * ?s) T)"
  from chunk_text_windows[OF assms(1-4)] obtain n where
    r: "chunk_text w file_path C ov =
          Some (Inr (map ?f [0..<n]), w\<lparr>open_log := open_log w @ [file_path]\<rparr>)"
    and b1: "length T \<le> n * ?s"
    and b2: "0 < n \<longrightarrow> (n - 1) * ?s < length T"
    by blast
  have c_eq: "?c = ?s + ?o" using assms by simp
  have npos: "0 < n" using b1 assms(5) by (cases n) auto
  then obtain m where n: "n = Suc m" by (cases n) auto
  have q1: "map ?f [0..<n] \<noteq> []" using npos by simp
  have q2: "hd (map ?f [0..<n]) = take ?c T" using npos by (simp add: hd_map upt_conv_Cons)
  have cover_end: "length T \<le> m * ?s + ?c" using b1 n c_eq by simp
  have q3: "last (map ?f [0..<n]) = drop ((length (map ?f [0..<n]) - 1) * ?s) T"
    using cover_end by (simp add: n)
  have step: "take (j * ?s + ?c) T @ drop ?o (?f (Suc j)) = take (Suc j * ?s + ?c) T" for j
  proof -
    have "drop ?o (?f (Suc j)) = take ?s (drop (j * ?s + ?c) T)"
      by (simp add: drop_take c_eq add.commute add.left_commute)
    then show ?thesis
      by (simp add: take_add[symmetric] add.commute add.left_commute)
  qed
  have pref: "take ?c T @ concat (map (\<lambda>k. drop ?o (?f (Suc k))) [0..<j]) = take (j * ?s + ?c) T" for j
  proof (induction j)
    case 0 show ?case by simp
  next
    case (Suc j)
    have "take ?c T @ concat (map (\<lambda>k. drop ?o (?f (Suc k))) [0..<Suc j]) =
          (take ?c T @ concat (map (\<lambda>k. drop ?o (?f (Suc k))) [0..<j])) @ drop ?o (?f (Suc j))"
      by simp
    also have "\<dots> = take (j * ?s + ?c) T @ drop ?o (?f (Suc j))"
      by (simp only: Suc.IH)
    also have "\<dots> = take (Suc j * ?s + ?c) T" by (rule step)
    finally show ?case .
  qed
  have "tl (map ?f [0..<n]) = map (\<lambda>k. ?f (Suc k)) [0..<m]"
    by (simp add: n upt_conv_Cons map_Suc_upt[symmetric] del: upt_Suc)
  then have "hd (map ?f [0..<n]) @ concat (map (drop ?o) (tl (map ?f [0..<n])))
        = take ?c T @ concat (map (\<lambda>k. drop ?o (?f (Suc k))) [0..<m])"
    using q2 by (simp add: comp_def)
  also have "\<dots> = take (m * ?s + ?c) T" by (rule pref)
  also have "\<dots> = T" using cover_end by simp
  finally have q4: "hd (map ?f [0..<n]) @ concat (map (drop ?o) (tl (map ?f [0..<n]))) = T" .
  from r q1 q2 q3 q4 show ?thesis by blast
qed


text \<open>The example of the specification: a file holding \<open>abcdef\<close>, chunk size 4, overlap 1.\<close>

lemma chunk_text_example:
  "map_option fst (chunk_text w_demo ''transcript.txt'' 4 1) = Some (Inr [''abcd'', ''def''])"
  by code_simp

theorem chunk_text_cover_witness:
  "\<exists>chunks w'. chunk_text w_demo ''transcript.txt'' 4 1 = Some (Inr chunks, w')
     \<and> (\<forall>k < length chunks. chunks ! k = take (nat 4) (drop (k * nat (4 - 1)) ''abcdef''))
     \<and> (\<forall>k < length chunks. k * nat (4 - 1) < length ''abcdef'')
     \<and> (\<forall>k < length chunks. length (chunks ! k) \<le> nat 4)
     \<and> (\<forall>i < length ''abcdef''. \<exists>k < length chunks.
            k * nat (4 - 1) \<le> i \<and> i < k * nat (4 - 1) + length (chunks ! k))
     \<and> (''abcdef'' = [] \<longrightarrow> chunks = [])"
  by (rule chunk_text_cover[of w_demo "''transcript.txt''" "''abcdef''" 4 1])
     (simp_all add: w_demo_def)

theorem chunk_text_rebuild_witness:
  "\<exists>chunks w'. chunk_text w_demo ''transcript.txt'' 4 1 = Some (Inr chunks, w')
     \<and> chunks \<noteq> []
     \<and> hd chunks = take (nat 4) ''abcdef''
     \<and> last chunks = drop ((length chunks - 1) * nat (4 - 1)) ''abcdef''
     \<and> hd chunks @ concat (map (drop (nat 1)) (tl chunks)) = ''abcdef''"
  by (rule chunk_text_rebuild[of w_demo "''transcript.txt''" "''abcdef''" 4 1])
     (simp_all add: w_demo_def)

subsection \<open>The size check\<close>

text \<open>
  Claim C4. Whenever \<open>overlap_size \<ge> chunk_size\<close>, \<open>chunk_text\<close> raises the
  \<open>ValueError\<close> of the size check and leaves the environment as it was: no file has been
  opened (\<open>open_log\<close> is unchanged), so the input has not been read, and no chunk list is
  returned.
\<close>

theorem chunk_text_invalid_sizes:
  assumes "overlap_size \<ge> chunk_size"
  shows "chunk_text w file_path chunk_size overlap_size =
           Some (Inl (ValueError ''Overlap must be less than chunk size''), w)"
  using assms by (simp add: chunk_text_def)

theorem chunk_text_invalid_sizes_witness:
  "chunk_text w_nofile ''transcript.txt'' 4 4 =
     Some (Inl (ValueError ''Overlap must be less than chunk size''), w_nofile)"
  by (rule chunk_text_invalid_sizes) simp

text \<open>
  In \<open>w_nofile\<close> the file cannot be opened: with valid sizes the call raises the error of
  \<open>open\<close> and logs the attempt, with invalid sizes it does neither.
\<close>

lemma chunk_text_missing_file:
  "chunk_text w_nofile ''transcript.txt'' 4 1 =
     Some (Inl (OSError ''No such file or directory''),
           w_nofile\<lparr>open_log := [''transcript.txt'']\<rparr>)"
  by (simp add: chunk_text_def open_read_def w_nofile_def w_demo_def)

subsection \<open>What the result depends on\<close>

text \<open>\<open>chunk_text\<close> always returns: the size check excludes the case in which the loop runs forever.\<close>

lemma chunk_text_returns:
  "\<exists>r. chunk_text w file_path chunk_size overlap_size = Some r"
proof (cases "overlap_size \<ge> chunk_size")
  case True
  then show ?thesis by (simp add: chunk_text_def)
next
  case False
  then have lt: "overlap_size < chunk_size" by simp
  show ?thesis
  proof (cases "files w file_path")
    case (Inl e)
    with lt show ?thesis by (simp add: chunk_text_def open_read_def Let_def)
  next
    case (Inr t)
    from chunk_text_result[OF Inr lt] show ?thesis by blast
  qed
qed

text \<open>The only effect of \<open>chunk_text\<close> is the attempt to open \<open>file_path\<close>.\<close>

lemma chunk_text_effects:
  assumes "chunk_text w file_path chunk_size overlap_size = Some (r, w')"
  shows "w' = w \<or> w' = w\<lparr>open_log := open_log w @ [file_path]\<rparr>"
  using assms
  by (auto simp: chunk_text_def open_read_def Let_def split: if_splits sum.splits)

text \<open>
  Claim C9, as stated, fails: the first argument of \<open>chunk_text\<close> is a path, not the text,
  and the function reads the file. With the same three arguments \<open>''transcript.txt''\<close>, 4
  and 1 the result differs between two environments whose file contents differ.
\<close>

theorem chunk_text_depends_on_file:
  "map_option fst (chunk_text w_demo ''transcript.txt'' 4 1)
     \<noteq> map_option fst (chunk_text w_other ''transcript.txt'' 4 1)"
  by code_simp

text \<open>
  Claim C9, amended. The result of \<open>chunk_text\<close> is a function of \<open>chunk_size\<close>,
  \<open>overlap_size\<close> and what reading the file at \<open>file_path\<close> gives: two environments that
  agree on that file give equal results for equal arguments.
\<close>

theorem chunk_text_function_of_file:
  assumes "files w1 file_path = files w2 file_path"
  shows "map_option fst (chunk_text w1 file_path chunk_size overlap_size) =
         map_option fst (chunk_text w2 file_path chunk_size overlap_size)"
  using assms
  by (cases "files w2 file_path")
     (simp_all add: chunk_text_def open_read_def Let_def option.map_comp comp_def)

theorem chunk_text_function_of_file_witness:
  "map_option fst (chunk_text w_demo ''notes.txt'' 4 1) =
   map_option fst (chunk_text w_other ''notes.txt'' 4 1)"
  by (rule chunk_text_function_of_file) (simp add: w_demo_def w_other_def)

section \<open>Properties of \<open>extract_video_id\<close>\<close>

subsection \<open>The search, position by position\<close>

lemma marker_hit_SomeD:
  assumes "marker_hit m s = Some g"
  shows "g \<noteq> [] \<and> (\<exists>rest. match_seq m s = Some rest \<and> g = takeWhile id_char rest)"
  using assms by (auto simp: marker_hit_def split: option.splits if_splits)

lemma try_alts_None: "try_alts ms s = None \<longleftrightarrow> (\<forall>m \<in> set ms. marker_hit m s = None)"
  by (induction ms) (auto split: option.splits)

lemma try_alts_SomeD:
  assumes "try_alts ms s = Some g"
  shows "\<exists>i < length ms. marker_hit (ms ! i) s = Some g \<and> (\<forall>j < i. marker_hit (ms ! j) s = None)"
  using assms
proof (induction ms)
  case Nil
  then show ?case by simp
next
  case (Cons m ms)
  show ?case
  proof (cases "marker_hit m s")
    case (Some h)
    with Cons.prems have "h = g" by simp
    with Some show ?thesis by (intro exI[of _ 0]) simp
  next
    case None
    with Cons obtain i where i: "i < length ms" "marker_hit (ms ! i) s = Some g"
      "\<forall>j < i. marker_hit (ms ! j) s = None" by auto
    have "\<forall>j < Suc i. marker_hit ((m # ms) ! j) s = None"
    proof (intro allI impI)
      fix j assume "j < Suc i"
      then show "marker_hit ((m # ms) ! j) s = None"
        using None i(3) by (cases j) auto
    qed
    with i show ?thesis by (intro exI[of _ "Suc i"]) simp
  qed
qed

lemma try_alts_first:
  assumes "i < length ms" "marker_hit (ms ! i) s = Some g" "\<forall>j < i. marker_hit (ms ! j) s = None"
  shows "try_alts ms s = Some g"
  using assms
proof (induction ms arbitrary: i)
  case Nil
  then show ?case by simp
next
  case (Cons m ms)
  show ?case
  proof (cases i)
    case 0
    with Cons.prems show ?thesis by simp
  next
    case (Suc k)
    with Cons.prems have m: "marker_hit m s = None" by auto
    have "\<forall>j < k. marker_hit (ms ! j) s = None"
    proof (intro allI impI)
      fix j assume "j < k"
      then have "Suc j < i" using Suc by simp
      with Cons.prems(3) have "marker_hit ((m # ms) ! Suc j) s = None" by blast
      then show "marker_hit (ms ! j) s = None" by simp
    qed
    with Cons.IH[of k] Cons.prems Suc have "try_alts ms s = Some g" by simp
    with m show ?thesis by simp
  qed
qed

lemma re_search_None:
  "re_search s = None \<longleftrightarrow> (\<forall>p \<le> length s. try_alts markers (drop p s) = None)"
proof (induction s)
  case Nil
  show ?case by simp
next
  case (Cons c cs)
  show ?case
  proof
    assume a: "re_search (c # cs) = None"
    then have h0: "try_alts markers (c # cs) = None" and r: "re_search cs = None"
      by (auto split: option.splits)
    show "\<forall>p \<le> length (c # cs). try_alts markers (drop p (c # cs)) = None"
    proof (intro allI impI)
      fix p assume "p \<le> length (c # cs)"
      then show "try_alts markers (drop p (c # cs)) = None"
        using h0 r Cons.IH by (cases p) auto
    qed
  next
    assume a: "\<forall>p \<le> length (c # cs). try_alts markers (drop p (c # cs)) = None"
    then have h0: "try_alts markers (c # cs) = None" by (metis drop0 le0)
    have "\<forall>p \<le> length cs. try_alts markers (drop p cs) = None"
    proof (intro allI impI)
      fix p assume "p \<le> length cs"
      then have "Suc p \<le> length (c # cs)" by simp
      with a have "try_alts markers (drop (Suc p) (c # cs)) = None" by blast
      then show "try_alts markers (drop p cs) = None" by simp
    qed
    with Cons.IH have "re_search cs = None" by simp
    with h0 show "re_search (c # cs) = None" by simp
  qed
qed

lemma re_search_SomeD:
  assumes "re_search s = Some g"
  shows "\<exists>p \<le> length s. try_alts markers (drop p s) = Some g
           \<and> (\<forall>q < p. try_alts markers (drop q s) = None)"
  using assms
proof (induction s)
  case Nil
  then show ?case by simp
next
  case (Cons c cs)
  show ?case
  proof (cases "try_alts markers (c # cs)")
    case (Some h)
    with Cons.prems have "h = g" by simp
    with Some show ?thesis by (intro exI[of _ 0]) simp
  next
    case None
    with Cons obtain p where p: "p \<le> length cs" "try_alts markers (drop p cs) = Some g"
      "\<forall>q < p. try_alts markers (drop q cs) = None" by auto
    have "\<forall>q < Suc p. try_alts markers (drop q (c # cs)) = None"
    proof (intro allI impI)
      fix q assume "q < Suc p"
      then show "try_alts markers (drop q (c # cs)) = None"
        using None p(3) by (cases q) auto
    qed
    with p show ?thesis by (intro exI[of _ "Suc p"]) simp
  qed
qed

lemma re_search_first:
  assumes "p \<le> length s" "try_alts markers (drop p s) = Some g"
    "\<forall>q < p. try_alts markers (drop q s) = None"
  shows "re_search s = Some g"
  using assms
proof (induction s arbitrary: p)
  case Nil
  then show ?case by simp
next
  case (Cons c cs)
  show ?case
  proof (cases p)
    case 0
    with Cons.prems show ?thesis by simp
  next
    case (Suc k)
    with Cons.prems have h0: "try_alts markers (c # cs) = None" by (metis drop0 zero_less_Suc)
    have "\<forall>q < k. try_alts markers (drop q cs) = None"
    proof (intro allI impI)
      fix q assume "q < k"
      then have "Suc q < p" using Suc by simp
      with Cons.prems(3) have "try_alts markers (drop (Suc q) (c # cs)) = None" by blast
      then show "try_alts markers (drop q cs) = None" by simp
    qed
    with Cons.IH[of k] Cons.prems Suc have "re_search cs = Some g" by simp
    with h0 show ?thesis by simp
  qed
qed

subsection \<open>At most one alternative matches at a position\<close>

lemma atoms_overlapI: "atom_matches a c \<Longrightarrow> atom_matches b c \<Longrightarrow> atoms_overlap a b"
  by (cases a; cases b) auto

lemma match_seq_compatible:
  assumes "match_seq m1 s \<noteq> None" "match_seq m2 s \<noteq> None"
  shows "compatible m1 m2"
  using assms
proof (induction m1 m2 arbitrary: s rule: compatible.induct)
  case (1 a as b bs)
  then obtain c cs where s: "s = c # cs" by (cases s) auto
  with 1 show ?case by (auto split: if_splits intro: atoms_overlapI)
qed simp_all

lemma markers_incompatible:
  "list_all (\<lambda>i. list_all (\<lambda>j. \<not> compatible (markers ! j) (markers ! i)) [0..<i]) [0..<length markers]"
  by code_simp

lemma marker_unique:
  assumes "i < length markers" "j < i"
  shows "\<not> compatible (markers ! j) (markers ! i)"
  using markers_incompatible assms by (simp add: list_all_iff)

lemma match_seq_append:
  assumes "match_seq m t = Some []"
  shows "match_seq m (t @ r) = Some r"
  using assms
proof (induction m t rule: match_seq.induct)
  case (1 s)
  then show ?case by simp
next
  case (2 a as)
  then show ?case by simp
next
  case (3 a as c cs)
  then show ?case by (auto split: if_splits)
qed

lemma try_alts_at_marker:
  assumes i: "i < length markers" and m: "match_seq (markers ! i) t = Some []"
    and g: "g \<noteq> []" "list_all id_char g" and tail: "tail = [] \<or> \<not> id_char (hd tail)"
  shows "try_alts markers (t @ g @ tail) = Some g"
proof (rule try_alts_first[OF i])
  have tw: "takeWhile id_char (g @ tail) = g"
    using g(2) tail by (cases tail) (auto simp: list_all_iff takeWhile_append2)
  from match_seq_append[OF m] have ms: "match_seq (markers ! i) (t @ g @ tail) = Some (g @ tail)" .
  show "marker_hit (markers ! i) (t @ g @ tail) = Some g"
    using g(1) by (simp add: marker_hit_def ms tw)
  show "\<forall>j < i. marker_hit (markers ! j) (t @ g @ tail) = None"
  proof (intro allI impI)
    fix j assume j: "j < i"
    have "match_seq (markers ! j) (t @ g @ tail) = None"
    proof (rule ccontr)
      assume "match_seq (markers ! j) (t @ g @ tail) \<noteq> None"
      moreover have "match_seq (markers ! i) (t @ g @ tail) \<noteq> None" using ms by simp
      ultimately have "compatible (markers ! j) (markers ! i)" by (rule match_seq_compatible)
      with marker_unique[OF i j] show False by simp
    qed
    then show "marker_hit (markers ! j) (t @ g @ tail) = None" by (simp add: marker_hit_def)
  qed
qed



subsection \<open>Which occurrence wins, failure, and the captured identifier\<close>

lemma not_id_char: "\<not> id_char c \<longleftrightarrow> c \<in> {CHR ''#'', CHR ''&'', CHR ''?'', CHR 0x0A, CHR ''/''}"
  by (auto simp: id_char_def)

lemma extract_video_id_Inr: "extract_video_id url = Inr g \<longleftrightarrow> re_search url = Some g"
  by (simp add: extract_video_id_def split: option.splits)

text \<open>
  Claim C2, as stated, fails. In \<open>/embed/XYZ?v=abc\<close> the marker \<open>/embed/\<close> (alternative 8 of
  the pattern) occurs at position 0 and the marker \<open>v=\<close> (alternative 1, the earliest of the
  precedence list) at position 11. Taking the markers in precedence order gives \<open>abc\<close>,
  the identifier after \<open>v=\<close>; \<open>extract_video_id\<close> returns \<open>XYZ\<close>, the identifier after the
  leftmost marker.
\<close>

theorem extract_not_by_precedence:
  "marker_hit (markers ! 7) ''/embed/XYZ?v=abc'' = Some ''XYZ''
   \<and> marker_hit (markers ! 0) (drop 11 ''/embed/XYZ?v=abc'') = Some ''abc''
   \<and> precedence_search markers ''/embed/XYZ?v=abc'' = Some ''abc''
   \<and> extract_video_id ''/embed/XYZ?v=abc'' = Inr ''XYZ''"
  by code_simp

text \<open>
  Claim C2, amended. \<open>extract_video_id\<close> returns \<open>g\<close> exactly when \<open>g\<close> is captured at the
  leftmost position \<open>p\<close> of the input at which some marker is followed by at least one
  identifier character; the order of the alternatives decides only between alternatives
  at that same position (alternative \<open>i\<close> is the first that succeeds at \<open>p\<close>).
\<close>

theorem extract_leftmost_marker:
  "extract_video_id url = Inr g \<longleftrightarrow>
     (\<exists>p i. p \<le> length url \<and> i < length markers
        \<and> marker_hit (markers ! i) (drop p url) = Some g
        \<and> (\<forall>q < p. \<forall>m \<in> set markers. marker_hit m (drop q url) = None)
        \<and> (\<forall>j < i. marker_hit (markers ! j) (drop p url) = None))"
proof
  assume "extract_video_id url = Inr g"
  then have "re_search url = Some g" by (simp add: extract_video_id_Inr)
  from re_search_SomeD[OF this] obtain p where p: "p \<le> length url"
    "try_alts markers (drop p url) = Some g" "\<forall>q < p. try_alts markers (drop q url) = None"
    by blast
  from try_alts_SomeD[OF p(2)] obtain i where i: "i < length markers"
    "marker_hit (markers ! i) (drop p url) = Some g"
    "\<forall>j < i. marker_hit (markers ! j) (drop p url) = None" by blast
  from p(3) have "\<forall>q < p. \<forall>m \<in> set markers. marker_hit m (drop q url) = None"
    by (simp add: try_alts_None)
  with p(1) i show "\<exists>p i. p \<le> length url \<and> i < length markers
        \<and> marker_hit (markers ! i) (drop p url) = Some g
        \<and> (\<forall>q < p. \<forall>m \<in> set markers. marker_hit m (drop q url) = None)
        \<and> (\<forall>j < i. marker_hit (markers ! j) (drop p url) = None)" by blast
next
  assume "\<exists>p i. p \<le> length url \<and> i < length markers
        \<and> marker_hit (markers ! i) (drop p url) = Some g
        \<and> (\<forall>q < p. \<forall>m \<in> set markers. marker_hit m (drop q url) = None)
        \<and> (\<forall>j < i. marker_hit (markers ! j) (drop p url) = None)"
  then obtain p i where p: "p \<le> length url" and i: "i < length markers"
    and hit: "marker_hit (markers ! i) (drop p url) = Some g"
    and left: "\<forall>q < p. \<forall>m \<in> set markers. marker_hit m (drop q url) = None"
    and first: "\<forall>j < i. marker_hit (markers ! j) (drop p url) = None" by blast
  from try_alts_first[OF i hit first] have t: "try_alts markers (drop p url) = Some g" .
  from left have "\<forall>q < p. try_alts markers (drop q url) = None" by (simp add: try_alts_None)
  from re_search_first[OF p t this] show "extract_video_id url = Inr g"
    by (simp add: extract_video_id_Inr)
qed

theorem extract_leftmost_marker_witness:
  "\<exists>p i. p \<le> length ''/embed/XYZ?v=abc'' \<and> i < length markers
        \<and> marker_hit (markers ! i) (drop p ''/embed/XYZ?v=abc'') = Some ''XYZ''
        \<and> (\<forall>q < p. \<forall>m \<in> set markers. marker_hit m (drop q ''/embed/XYZ?v=abc'') = None)
        \<and> (\<forall>j < i. marker_hit (markers ! j) (drop p ''/embed/XYZ?v=abc'') = None)"
proof -
  have h: "extract_video_id ''/embed/XYZ?v=abc'' = Inr ''XYZ''" by code_simp
  from extract_leftmost_marker[THEN iffD1, OF h] show ?thesis .
qed

text \<open>
  What \<open>extract_video_id\<close> does guarantee: an identifier that is returned is never empty,
  and nothing else about it is checked, so every non-empty string of characters of the
  class is returned as the identifier when it follows \<open>v=\<close>.
\<close>

lemma extract_video_id_nonempty:
  assumes "extract_video_id url = Inr g"
  shows "g \<noteq> []"
proof -
  from assms have "re_search url = Some g" by (simp add: extract_video_id_Inr)
  from re_search_SomeD[OF this] obtain p where "try_alts markers (drop p url) = Some g" by blast
  from try_alts_SomeD[OF this] obtain i where "marker_hit (markers ! i) (drop p url) = Some g"
    by blast
  from marker_hit_SomeD[OF this] show "g \<noteq> []" by simp
qed

lemma extract_video_id_no_validation:
  assumes "g \<noteq> []" "list_all id_char g"
  shows "extract_video_id (''v='' @ g) = Inr g"
proof -
  have i: "0 < length markers" and m: "match_seq (markers ! 0) ''v='' = Some []"
    by (simp_all add: markers_def lit_def)
  from try_alts_at_marker[OF i m, of g "[]"] assms
  have "try_alts markers (''v='' @ g) = Some g" by simp
  then have "re_search (''v='' @ g) = Some g" by simp
  then show ?thesis by (simp add: extract_video_id_Inr)
qed

text \<open>The URLs of the specification contain recognized markers.\<close>

lemma contains_marker_examples:
  "contains_marker ''https://www.youtube.com/watch?v=abc123&t=5s''
   \<and> contains_marker ''https://youtu.be/abc123''"
  by code_simp

text \<open>
  Claim C6 does not hold of the code. The pattern escapes \<open>/\<close>, \<open>?\<close> and \<open>&\<close> but leaves the
  dot of \<open>youtu.be\<close> and \<open>youtube.com\<close> unescaped, so that dot matches any character except a
  newline. The input \<open>youtuXbe/abc\<close> contains none of the recognized markers, and
  \<open>extract_video_id\<close> returns the identifier \<open>abc\<close> instead of raising its \<open>ValueError\<close>. An
  input without any marker-like text, such as \<open>https://example.com/\<close>, is rejected.
\<close>

theorem extract_video_id_wildcard_dot:
  "\<not> contains_marker ''youtuXbe/abc''
   \<and> extract_video_id ''youtuXbe/abc'' = Inr ''abc''
   \<and> \<not> contains_marker ''https://example.com/''
   \<and> extract_video_id ''https://example.com/''
         = Inl (ValueError ''Could not extract video ID from URL.'')"
  by code_simp

text \<open>
  Claim C8. The two URLs of the specification give \<open>abc123\<close>. For every marker \<open>m\<close> of the
  pattern: when the text \<open>t\<close> matched by \<open>m\<close> is followed by a non-empty run \<open>g\<close> of class
  characters that ends at the end of the input or before one of \<open>#\<close>, \<open>&\<close>, \<open>?\<close>, newline,
  \<open>/\<close>, and the pattern does not match at a position of the prefix \<open>pre\<close>, the result is
  \<open>g\<close>. Every identifier that is returned is the run of characters after a marker up to,
  and not including, the next of these five characters or the end of the input.
\<close>

theorem extract_video_id_shapes:
  "extract_video_id ''https://www.youtube.com/watch?v=abc123&t=5s'' = Inr ''abc123''
   \<and> extract_video_id ''https://youtu.be/abc123'' = Inr ''abc123''
   \<and> (m \<in> set markers \<and> match_seq m t = Some [] \<and> g \<noteq> [] \<and> list_all id_char g
        \<and> (tail = [] \<or> hd tail \<in> {CHR ''#'', CHR ''&'', CHR ''?'', CHR 0x0A, CHR ''/''})
        \<and> (\<forall>q < length pre. try_alts markers (drop q (pre @ t @ g @ tail)) = None)
      \<longrightarrow> extract_video_id (pre @ t @ g @ tail) = Inr g)
   \<and> (extract_video_id url = Inr v \<longrightarrow>
        (\<exists>p m rest. p \<le> length url \<and> m \<in> set markers
           \<and> match_seq m (drop p url) = Some rest
           \<and> v = takeWhile id_char rest \<and> v \<noteq> []
           \<and> (rest = v \<or> (\<exists>c r. rest = v @ c # r
                 \<and> c \<in> {CHR ''#'', CHR ''&'', CHR ''?'', CHR 0x0A, CHR ''/''}))))"
proof (intro conjI impI)
  show "extract_video_id ''https://www.youtube.com/watch?v=abc123&t=5s'' = Inr ''abc123''"
    by code_simp
  show "extract_video_id ''https://youtu.be/abc123'' = Inr ''abc123''"
    by code_simp
next
  assume a: "m \<in> set markers \<and> match_seq m t = Some [] \<and> g \<noteq> [] \<and> list_all id_char g
        \<and> (tail = [] \<or> hd tail \<in> {CHR ''#'', CHR ''&'', CHR ''?'', CHR 0x0A, CHR ''/''})
        \<and> (\<forall>q < length pre. try_alts markers (drop q (pre @ t @ g @ tail)) = None)"
  then obtain i where i: "i < length markers" and mi: "m = markers ! i"
    by (auto simp: in_set_conv_nth)
  from a have tl: "tail = [] \<or> \<not> id_char (hd tail)" by (simp add: not_id_char)
  from a mi have ms: "match_seq (markers ! i) t = Some []" by simp
  from a have g: "g \<noteq> []" "list_all id_char g" by simp_all
  have "try_alts markers (t @ g @ tail) = Some g"
    by (rule try_alts_at_marker[OF i ms g tl])
  then have h: "try_alts markers (drop (length pre) (pre @ t @ g @ tail)) = Some g" by simp
  have l: "length pre \<le> length (pre @ t @ g @ tail)" by simp
  from a have n: "\<forall>q < length pre. try_alts markers (drop q (pre @ t @ g @ tail)) = None"
    by (elim conjE)
  have "re_search (pre @ t @ g @ tail) = Some g"
    by (rule re_search_first[OF l h n])
  then show "extract_video_id (pre @ t @ g @ tail) = Inr g" by (simp add: extract_video_id_Inr)
next
  assume "extract_video_id url = Inr v"
  then have "re_search url = Some v" by (simp add: extract_video_id_Inr)
  from re_search_SomeD[OF this] obtain p where p: "p \<le> length url"
    "try_alts markers (drop p url) = Some v" by blast
  from try_alts_SomeD[OF p(2)] obtain i where i: "i < length markers"
    "marker_hit (markers ! i) (drop p url) = Some v" by blast
  from marker_hit_SomeD[OF i(2)] obtain rest where r: "v \<noteq> []"
    "match_seq (markers ! i) (drop p url) = Some rest" "v = takeWhile id_char rest" by blast
  have "rest = v \<or> (\<exists>c r. rest = v @ c # r
          \<and> c \<in> {CHR ''#'', CHR ''&'', CHR ''?'', CHR 0x0A, CHR ''/''})"
  proof (cases "dropWhile id_char rest")
    case Nil
    then have "takeWhile id_char rest = rest" by (metis append_Nil2 takeWhile_dropWhile_id)
    with r(3) show ?thesis by simp
  next
    case (Cons c d)
    then have "\<not> id_char c" by (metis hd_dropWhile list.sel(1) list.distinct(1))
    moreover have "rest = v @ c # d" using Cons r(3) by (metis takeWhile_dropWhile_id)
    ultimately show ?thesis by (auto simp: not_id_char)
  qed
  moreover from i(1) have "markers ! i \<in> set markers" by (rule nth_mem)
  ultimately show "\<exists>p m rest. p \<le> length url \<and> m \<in> set markers
           \<and> match_seq m (drop p url) = Some rest
           \<and> v = takeWhile id_char rest \<and> v \<noteq> []
           \<and> (rest = v \<or> (\<exists>c r. rest = v @ c # r
                 \<and> c \<in> {CHR ''#'', CHR ''&'', CHR ''?'', CHR 0x0A, CHR ''/''}))"
    using p(1) r by (intro exI[of _ p] exI[of _ "markers ! i"] exI[of _ rest]) simp
qed

theorem extract_video_id_shapes_witness:
  "extract_video_id (''https://www.'' @ ''youtube.com/embed/'' @ ''abc123'' @ ''?rel=0'') = Inr ''abc123''
   \<and> (\<exists>p m rest. p \<le> length ''https://youtu.be/abc123'' \<and> m \<in> set markers
           \<and> match_seq m (drop p ''https://youtu.be/abc123'') = Some rest
           \<and> ''abc123'' = takeWhile id_char rest)"
proof -
  let ?m = "lit ''youtube'' @ [Dot] @ lit ''com/embed/''"
  let ?u = "''https://www.'' @ ''youtube.com/embed/'' @ ''abc123'' @ ''?rel=0''"
  have h1: "?m \<in> set markers" by (simp add: markers_def)
  have h2: "match_seq ?m ''youtube.com/embed/'' = Some []" by code_simp
  have h3: "''abc123'' \<noteq> [] \<and> list_all id_char ''abc123''" by code_simp
  have h4: "''?rel=0'' = [] \<or> hd ''?rel=0'' \<in> {CHR ''#'', CHR ''&'', CHR ''?'', CHR 0x0A, CHR ''/''}"
    by simp
  have "list_all (\<lambda>q. try_alts markers (drop q ?u) = None) [0..<length ''https://www.'']"
    by code_simp
  then have h5: "\<forall>q < length ''https://www.''. try_alts markers (drop q ?u) = None"
    by (simp only: list_all_iff Ball_def set_upt atLeastLessThan_iff le0 simp_thms)
  have u: "extract_video_id ''https://youtu.be/abc123'' = Inr ''abc123''" by code_simp
  note inst = extract_video_id_shapes[of ?m "''youtube.com/embed/''" "''abc123''" "''?rel=0''"
      "''https://www.''" "''https://youtu.be/abc123''" "''abc123''"]
  from h1 h2 h3 h4 h5 have a: "extract_video_id ?u = Inr ''abc123''"
    by (intro inst[THEN conjunct2, THEN conjunct2, THEN conjunct1, THEN mp] conjI) (elim conjE | assumption)+
  from inst[THEN conjunct2, THEN conjunct2, THEN conjunct2, THEN mp, OF u]
  obtain p m rest where "p \<le> length ''https://youtu.be/abc123''" "m \<in> set markers"
    "match_seq m (drop p ''https://youtu.be/abc123'') = Some rest"
    "''abc123'' = takeWhile id_char rest" by (elim exE conjE)
  then have b: "\<exists>p m rest. p \<le> length ''https://youtu.be/abc123'' \<and> m \<in> set markers
           \<and> match_seq m (drop p ''https://youtu.be/abc123'') = Some rest
           \<and> ''abc123'' = takeWhile id_char rest"
    by (intro exI[of _ p] exI[of _ m] exI[of _ rest] conjI)
  from a b show ?thesis by (rule conjI)
qed



section \<open>Properties of \<open>get_transcript\<close>\<close>

text \<open>
  The loop appends every text followed by a space; stripping the result gives the same
  string as stripping the texts joined with single spaces.
\<close>

lemma foldl_append_texts:
  "foldl (\<lambda>acc entry. acc @ seg_text entry @ '' '') acc segs =
     acc @ concat (map (\<lambda>t. t @ '' '') (map seg_text segs))"
  by (induction segs arbitrary: acc) simp_all

lemma concat_texts_join:
  "concat (map (\<lambda>t. t @ '' '') ts) = (if ts = [] then [] else py_join '' '' ts @ '' '')"
  by (induction ts rule: py_join.induct[of _ "'' ''"]) simp_all

lemma py_isspace_space: "py_isspace CHR '' ''"
  by (simp add: py_isspace_def)

lemma py_strip_trailing:
  assumes "py_isspace c"
  shows "py_strip (s @ [c]) = py_strip s"
proof (cases "\<forall>x \<in> set s. py_isspace x")
  case True
  then have e: "dropWhile py_isspace (s @ [c]) = []" "dropWhile py_isspace s = []"
    using assms by (simp_all add: dropWhile_eq_Nil_conv)
  show ?thesis by (simp only: py_strip_def e)
next
  case False
  then obtain x where "x \<in> set s" "\<not> py_isspace x" by blast
  then have "dropWhile py_isspace (s @ [c]) = dropWhile py_isspace s @ [c]"
    by (rule dropWhile_append1)
  then show ?thesis using assms by (simp add: py_strip_def)
qed

lemma transcript_text_join:
  "py_strip (foldl (\<lambda>acc entry. acc @ seg_text entry @ '' '') [] segs) =
   py_strip (py_join '' '' (map seg_text segs))"
proof (cases "segs = []")
  case True
  then show ?thesis by simp
next
  case False
  have "foldl (\<lambda>acc entry. acc @ seg_text entry @ '' '') [] segs =
          [] @ concat (map (\<lambda>t. t @ '' '') (map seg_text segs))"
    by (rule foldl_append_texts)
  also have "\<dots> = py_join '' '' (map seg_text segs) @ [CHR '' '']"
    using False by (simp only: concat_texts_join) simp
  finally have "foldl (\<lambda>acc entry. acc @ seg_text entry @ '' '') [] segs =
             py_join '' '' (map seg_text segs) @ [CHR '' '']" .
  then show ?thesis by (simp add: py_strip_trailing[OF py_isspace_space])
qed

text \<open>
  Claim C3. Whenever the call of the transcript service raises, for every video identifier,
  language and output file, \<open>get_transcript\<close> returns \<open>None\<close>; the message of the exception
  is printed after \<open>Error: \<close> and nothing else in the environment changes.
\<close>

theorem get_transcript_swallows_failure:
  assumes "fetch video_id [language] = Inl msg"
  shows "get_transcript fetch w video_id output_file language =
           (None, w\<lparr>stdout := stdout w @ [''Error: '' @ msg]\<rparr>)"
  using assms by (simp add: get_transcript_def)

theorem get_transcript_swallows_failure_witness:
  "get_transcript fetch_unavailable w_demo ''abc123'' None ''en'' =
     (None, w_demo\<lparr>stdout := stdout w_demo @ [''Error: '' @ ''Could not retrieve a transcript'']\<rparr>)"
  by (rule get_transcript_swallows_failure) (simp add: fetch_unavailable_def)

text \<open>
  Claim C5, as stated, fails. The service returns the segments \<open>Hello\<close> and \<open>world\<close>, but the
  output file that the caller asked for cannot be opened: the exception of \<open>open\<close> is raised
  inside the \<open>try\<close>, and \<open>get_transcript\<close> returns \<open>None\<close> instead of \<open>Hello world\<close>.
\<close>

theorem get_transcript_write_failure:
  "fetch_hello ''abc123'' [''en''] =
     Inr [\<lparr>seg_text = ''Hello'', seg_start = 0, seg_duration = 2\<rparr>,
          \<lparr>seg_text = ''world'', seg_start = 2, seg_duration = 3\<rparr>]
   \<and> fst (get_transcript fetch_hello w_demo ''abc123'' (Some ''/missing/out.txt'') ''en'') = None"
  by (simp add: fetch_hello_def get_transcript_def w_demo_def Let_def)

text \<open>
  Claim C5, amended. When the service returns the segments and the writing of the output
  file does not fail (no file is asked for, or the file can be opened), \<open>get_transcript\<close>
  returns the texts of the segments joined with a single space and stripped; the times of
  the segments do not enter the result. For the texts \<open>Hello\<close> and \<open>world\<close> it returns
  \<open>Hello world\<close>.
\<close>

theorem get_transcript_joins:
  assumes "fetch video_id [language] = Inr segs" "\<not> write_fails w output_file"
  shows "fst (get_transcript fetch w video_id output_file language) =
           Some (py_strip (py_join '' '' (map seg_text segs)))"
  using assms
  by (auto simp: get_transcript_def write_fails_def Let_def transcript_text_join
           split: option.splits)

theorem get_transcript_joins_witness:
  "fst (get_transcript fetch_hello w_demo ''abc123'' (Some ''out.txt'') ''en'') = Some ''Hello world''"
proof -
  have f: "fetch_hello ''abc123'' [''en''] =
     Inr [\<lparr>seg_text = ''Hello'', seg_start = 0, seg_duration = 2\<rparr>,
          \<lparr>seg_text = ''world'', seg_start = 2, seg_duration = 3\<rparr>]"
    by (simp add: fetch_hello_def)
  have n: "\<not> write_fails w_demo (Some ''out.txt'')"
    by (simp add: write_fails_def w_demo_def)
  have v: "py_strip (py_join '' '' (map seg_text
     [\<lparr>seg_text = ''Hello'', seg_start = 0::nat, seg_duration = 2\<rparr>,
      \<lparr>seg_text = ''world'', seg_start = 2, seg_duration = 3\<rparr>])) = ''Hello world''"
    by code_simp
  from get_transcript_joins[of fetch_hello "''abc123''" "''en''" _ w_demo "Some ''out.txt''", OF f n] v
  show ?thesis by simp
qed


section \<open>Properties of \<open>fetch_video_snippet\<close>\<close>

text \<open>
  Claim C7, as stated, fails for a status code that is neither 2xx nor 4xx/5xx. A response
  with status 304 passes \<open>raise_for_status\<close>: without a JSON body the call fails with the
  error of \<open>resp.json()\<close>, which is not \<open>HTTPError\<close>, and with a body that lists the video
  it returns the snippet.
\<close>

theorem fetch_video_snippet_no_http_error:
  "fetch_video_snippet plain_urlencode (server 304 None) ''KEY'' ''abc123'' = Inl JSONDecodeError
   \<and> fetch_video_snippet plain_urlencode (server 304 (Some body_found)) ''KEY'' ''abc123''
       = Inr snippet_abc"
  by (simp add: fetch_video_snippet_def server_def raise_for_status_def body_found_def
        position_def Let_def)

text \<open>
  Claim C7, amended. Let the request return the response \<open>resp\<close>, for any video identifier
  and any API key. With a status code from 400 to 599 the call fails with \<open>HTTPError\<close>
  carrying the status code. With a 2xx status code and a JSON object whose \<open>items\<close> are
  missing or the empty list it fails with the \<open>ValueError\<close> \<open>Video snippet not found.\<close>.
  With a 2xx status code and a JSON object whose \<open>items\<close> start with an object that has a
  \<open>snippet\<close> it returns that snippet.
\<close>

theorem fetch_video_snippet_outcomes:
  assumes "http_get (BASE_VIDEO_API @ ''?'' @
             urlencode [(''part'', ''snippet''), (''id'', video_id), (''key'', api_key)]) = Inr resp"
  shows "(400 \<le> status_code resp \<and> status_code resp < 600 \<longrightarrow>
            fetch_video_snippet urlencode http_get api_key video_id
              = Inl (HTTPError (status_code resp)))
      \<and> (200 \<le> status_code resp \<and> status_code resp < 300
            \<and> json_body resp = Some (JObj kvs)
            \<and> (map_of kvs ''items'' = None \<or> map_of kvs ''items'' = Some (JArr [])) \<longrightarrow>
            fetch_video_snippet urlencode http_get api_key video_id
              = Inl (ValueError ''Video snippet not found.''))
      \<and> (200 \<le> status_code resp \<and> status_code resp < 300
            \<and> json_body resp = Some (JObj kvs)
            \<and> map_of kvs ''items'' = Some (JArr (JObj item # others))
            \<and> map_of item ''snippet'' = Some snippet \<longrightarrow>
            fetch_video_snippet urlencode http_get api_key video_id = Inr snippet)"
proof (intro conjI impI)
  assume "400 \<le> status_code resp \<and> status_code resp < 600"
  with assms show "fetch_video_snippet urlencode http_get api_key video_id
              = Inl (HTTPError (status_code resp))"
    by (simp add: fetch_video_snippet_def raise_for_status_def Let_def)
next
  assume a: "200 \<le> status_code resp \<and> status_code resp < 300
            \<and> json_body resp = Some (JObj kvs)
            \<and> (map_of kvs ''items'' = None \<or> map_of kvs ''items'' = Some (JArr []))"
  then have r: "raise_for_status resp = Inr ()" by (simp add: raise_for_status_def)
  from a have "dict_get (JObj kvs) ''items'' = Inr JNull \<or> dict_get (JObj kvs) ''items'' = Inr (JArr [])"
    by auto
  with assms a r show "fetch_video_snippet urlencode http_get api_key video_id
              = Inl (ValueError ''Video snippet not found.'')"
    by (auto simp: fetch_video_snippet_def Let_def)
next
  assume a: "200 \<le> status_code resp \<and> status_code resp < 300
            \<and> json_body resp = Some (JObj kvs)
            \<and> map_of kvs ''items'' = Some (JArr (JObj item # others))
            \<and> map_of item ''snippet'' = Some snippet"
  then have r: "raise_for_status resp = Inr ()" by (simp add: raise_for_status_def)
  with assms a show "fetch_video_snippet urlencode http_get api_key video_id = Inr snippet"
    by (simp add: fetch_video_snippet_def position_def Let_def)
qed


theorem fetch_video_snippet_outcomes_witness:
  "fetch_video_snippet plain_urlencode (server 404 None) ''KEY'' ''abc123'' = Inl (HTTPError 404)
   \<and> fetch_video_snippet plain_urlencode (server 200 (Some body_empty)) ''KEY'' ''abc123''
       = Inl (ValueError ''Video snippet not found.'')
   \<and> fetch_video_snippet plain_urlencode (server 200 (Some body_found)) ''KEY'' ''abc123''
       = Inr snippet_abc"
proof (intro conjI)
  let ?url = "BASE_VIDEO_API @ ''?'' @
     plain_urlencode [(''part'', ''snippet''), (''id'', ''abc123''), (''key'', ''KEY'')]"
  have a: "server 404 None ?url = Inr \<lparr>status_code = 404, json_body = None\<rparr>"
    by (simp add: server_def)
  from fetch_video_snippet_outcomes[where urlencode = plain_urlencode
      and video_id = "''abc123''" and api_key = "''KEY''" and http_get = "server 404 None",
      OF a, THEN conjunct1]
  show "fetch_video_snippet plain_urlencode (server 404 None) ''KEY'' ''abc123''
          = Inl (HTTPError 404)"
    by simp
  have b: "server 200 (Some body_empty) ?url =
             Inr \<lparr>status_code = 200, json_body = Some body_empty\<rparr>"
    by (simp add: server_def)
  from fetch_video_snippet_outcomes[where urlencode = plain_urlencode
      and video_id = "''abc123''" and api_key = "''KEY''"
      and http_get = "server 200 (Some body_empty)"
      and kvs = "[(''kind'', JStr ''youtube#videoListResponse''), (''items'', JArr [])]",
      OF b, THEN conjunct2, THEN conjunct1]
  show "fetch_video_snippet plain_urlencode (server 200 (Some body_empty)) ''KEY'' ''abc123''
          = Inl (ValueError ''Video snippet not found.'')"
    by (simp add: body_empty_def)
  have c: "server 200 (Some body_found) ?url =
             Inr \<lparr>status_code = 200, json_body = Some body_found\<rparr>"
    by (simp add: server_def)
  from fetch_video_snippet_outcomes[where urlencode = plain_urlencode
      and video_id = "''abc123''" and api_key = "''KEY''"
      and http_get = "server 200 (Some body_found)"
      and kvs = "[(''kind'', JStr ''youtube#videoListResponse''),
                  (''items'', JArr [JObj [(''id'', JStr ''abc123''), (''snippet'', snippet_abc)]])]"
      and item = "[(''id'', JStr ''abc123''), (''snippet'', snippet_abc)]"
      and others = "[]" and snippet = snippet_abc,
      OF c, THEN conjunct2, THEN conjunct2]
  show "fetch_video_snippet plain_urlencode (server 200 (Some body_found)) ''KEY'' ''abc123''
          = Inr snippet_abc"
    by (simp add: body_found_def)
qed


end
